theory Spec2Isabelle
  imports Main "HOL-Library.AList"
begin

section \<open>Python values and dictionaries\<close>

text \<open>
  The platform is written in Python. Its dictionaries keep their keys in insertion
  order and hold each key once, so a dictionary is an association list whose keys are
  distinct: \<open>d[k] = v\<close> is \<^const>\<open>AList.update\<close> (an existing key keeps its
  place, a new one goes to the end), \<open>del d[k]\<close> is \<^const>\<open>AList.delete\<close>,
  \<open>d.get(k)\<close> is \<^const>\<open>map_of\<close> and \<open>k in d\<close> asks whether
  \<^const>\<open>map_of\<close> finds the key.

  Values that travel as JSON (event payloads, the user file, the discovery response) are
  \<open>pyval\<close>. A float is carried opaquely as a mantissa and an exponent: no code below
  computes with one. \<open>PClass\<close> is a reference to a Python class, which is not JSON.
\<close>

datatype pyval =
    PNone
  | PBool bool
  | PInt int
  | PFloat int int
  | PStr string
  | PList "pyval list"
  | PDict "(string \<times> pyval) list"
  | PClass string

datatype py_error = KeyError | AttributeError | TypeError | JSONDecodeError

definition dict_has :: "('k \<times> 'v) list \<Rightarrow> 'k \<Rightarrow> bool" where
  "dict_has d k = (map_of d k \<noteq> None)"

definition dict_keys :: "('k \<times> 'v) list \<Rightarrow> 'k list" where
  "dict_keys d = map fst d"

text \<open>Source literals that are not ASCII, as their UTF-8 bytes.\<close>

definition utf8 :: "nat list \<Rightarrow> string" where
  "utf8 bs = map char_of bs"

section \<open>The roulette game plugin (games/roulette\_game/game.py)\<close>

type_synonym account = string

record player =
  ID :: string
  order :: nat

record game =
  room_id :: string
  game_type :: string
  test_message :: string
  players :: "(account \<times> player) list"
  host :: "account option"
  started :: bool

text \<open>
  Modelled from the spec: the base class \<open>BaseGame\<close> (games/base.py) is not among the
  sources. A new plugin instance is bound to its room and has no players yet; it has no
  host and is not started. \<open>RouletteGame.__init__\<close> then sets the game type and the
  test message.
\<close>

definition base_init :: "string \<Rightarrow> game" where
  "base_init rid =
     \<lparr>room_id = rid, game_type = [], test_message = [], players = [], host = None,
      started = False\<rparr>"

definition init :: "string \<Rightarrow> game" where
  "init rid =
     (base_init rid)
       \<lparr>game_type := ''roulette'',
        test_message := ''Roulette'' @
          utf8 [230, 184, 184, 230, 136, 143, 229, 183, 178, 229, 136, 157, 229, 167, 139,
                229, 140, 150]\<rparr>"

text \<open>
  \<open>join\<close> returns the order number, or \<open>None\<close> for an account that is already in.
  The state is passed in and returned.
\<close>

definition join :: "game \<Rightarrow> account \<Rightarrow> string \<Rightarrow> game \<times> nat option" where
  "join g acc player_id =
     (if dict_has (players g) acc then (g, None)
      else
        let g1 = (if host g = None then g\<lparr>host := Some acc\<rparr> else g);
            ord = length (players g1) + 1
        in (g1\<lparr>players := AList.update acc \<lparr>ID = player_id, order = ord\<rparr> (players g1)\<rparr>,
            Some ord))"

text \<open>
  \<open>next(iter(self.players.keys()))\<close> is the first key of the dictionary; it is only
  evaluated when the dictionary is not empty.
\<close>

definition leave :: "game \<Rightarrow> account \<Rightarrow> game" where
  "leave g acc =
     (if dict_has (players g) acc then
        let g1 = g\<lparr>players := AList.delete acc (players g)\<rparr>
        in (if Some acc = host g1 then
              (case dict_keys (players g1) of
                 k # _ \<Rightarrow> g1\<lparr>host := Some k\<rparr>
               | [] \<Rightarrow> g1)
            else g1)
      else g)"

definition start :: "game \<Rightarrow> game \<times> bool" where
  "start g =
     (if length (players g) > 0 then (g\<lparr>started := True\<rparr>, True) else (g, False))"

text \<open>
  \<open>handle_event\<close> reads the payload and never writes to the game; the game is
  returned with the result so that this can be stated. The payload is a dictionary.
  \<open>data.get(k, default)\<close> is \<open>dict_get_default\<close>; calling \<open>.get\<close> on the event
  data raises \<open>AttributeError\<close> when that value is not a dictionary. The f-string
  formats a string as itself and any other value by Python's \<open>str\<close>, which is the
  parameter \<open>fmt\<close>. The \<open>print\<close> of the payload is not modelled.
\<close>

definition dict_get_default :: "(string \<times> pyval) list \<Rightarrow> string \<Rightarrow> pyval \<Rightarrow> pyval" where
  "dict_get_default d k dflt = (case map_of d k of None \<Rightarrow> dflt | Some v \<Rightarrow> v)"

definition attr_get :: "pyval \<Rightarrow> string \<Rightarrow> pyval \<Rightarrow> py_error + pyval" where
  "attr_get v k dflt =
     (case v of PDict d \<Rightarrow> Inr (dict_get_default d k dflt) | _ \<Rightarrow> Inl AttributeError)"

definition format_val :: "(pyval \<Rightarrow> string) \<Rightarrow> pyval \<Rightarrow> string" where
  "format_val fmt v = (case v of PStr s \<Rightarrow> s | _ \<Rightarrow> fmt v)"

definition msg_received_from :: string where
  "msg_received_from =
     utf8 [229, 144, 142, 231, 171, 175, 230, 148, 182, 229, 136, 176, 230, 157, 165, 232,
           135, 170, 32]"

definition msg_message :: string where
  "msg_message = utf8 [32, 231, 154, 132, 230, 182, 136, 230, 129, 175, 58, 32]"

definition msg_unknown_event :: string where
  "msg_unknown_event =
     utf8 [230, 156, 170, 231, 159, 165, 228, 186, 139, 228, 187, 182, 231, 177, 187, 229,
           158, 139]"

definition handle_event ::
  "(pyval \<Rightarrow> string) \<Rightarrow> game \<Rightarrow> account \<Rightarrow> (string \<times> pyval) list \<Rightarrow>
   py_error + (game \<times> (string \<times> pyval) list)" where
  "handle_event fmt g acc data =
     (let event_name = map_of data ''event_name'' in
      if event_name = Some (PStr ''test_input'') then
        (case attr_get (dict_get_default data ''event_data'' (PDict [])) ''input'' (PStr []) of
           Inl e \<Rightarrow> Inl e
         | Inr user_input \<Rightarrow>
             (case attr_get (dict_get_default data ''event_data'' (PDict [])) ''timestamp''
                     (PStr []) of
                Inl e \<Rightarrow> Inl e
              | Inr ts \<Rightarrow>
                  Inr (g,
                    [(''ok'', PBool True),
                     (''msg'', PStr (msg_received_from @ acc @ msg_message @
                                     format_val fmt user_input)),
                     (''echo'', user_input),
                     (''timestamp'', ts),
                     (''broadcast'', PBool True)])))
      else
        Inr (g,
          [(''ok'', PBool False),
           (''msg'', PStr msg_unknown_event),
           (''broadcast'', PBool False)]))"

text \<open>The catalogue entry that \<open>register_game\<close> returns.\<close>

definition register_game :: "(string \<times> pyval) list" where
  "register_game =
     [(''id'', PStr ''roulette''),
      (''name'', PStr ''Roulette''),
      (''description'', PStr (utf8 [228, 184, 128, 228, 184, 170, 231, 174, 128, 229, 141,
          149, 231, 154, 132, 230, 181, 139, 232, 175, 149, 230, 184, 184, 230, 136, 143])),
      (''min_players'', PInt 1),
      (''max_players'', PInt 4),
      (''class'', PClass ''RouletteGame''),
      (''url'', PStr ''/roulette'')]"

subsection \<open>Sequences of operations\<close>

datatype game_op = Join account string | Leave account

fun apply_op :: "game \<Rightarrow> game_op \<Rightarrow> game" where
  "apply_op g (Join acc pid) = fst (join g acc pid)"
| "apply_op g (Leave acc) = leave g acc"

definition run :: "string \<Rightarrow> game_op list \<Rightarrow> game" where
  "run rid ops = foldl apply_op (init rid) ops"

text \<open>
  The order numbers that the successful joins of a sequence return, in the order of the
  calls.
\<close>

fun join_results :: "game \<Rightarrow> game_op list \<Rightarrow> nat list" where
  "join_results g [] = []"
| "join_results g (Join acc pid # ops) =
     (case snd (join g acc pid) of
        Some n \<Rightarrow> n # join_results (fst (join g acc pid)) ops
      | None \<Rightarrow> join_results (fst (join g acc pid)) ops)"
| "join_results g (Leave acc # ops) = join_results (leave g acc) ops"

text \<open>
  The join history, from the sequence of calls alone: \<open>join_log i ops m\<close> maps each
  account that is in the game after \<open>ops\<close> to the position in the sequence of the call
  that let it in (a rejoin of a present account changes nothing, a leave forgets the
  account). It says who joined earlier without looking at the order of the dictionary.
\<close>

fun join_log :: "nat \<Rightarrow> game_op list \<Rightarrow> (account \<rightharpoonup> nat) \<Rightarrow> (account \<rightharpoonup> nat)" where
  "join_log i [] m = m"
| "join_log i (Join acc pid # ops) m =
     join_log (Suc i) ops (if m acc \<noteq> None then m else m(acc \<mapsto> i))"
| "join_log i (Leave acc # ops) m = join_log (Suc i) ops (m(acc := None))"

definition joined_at :: "game_op list \<Rightarrow> account \<Rightarrow> nat option" where
  "joined_at ops acc = join_log 0 ops Map.empty acc"

text \<open>
  The claim about the order numbers: the host holds the smallest order number among the
  players present.
\<close>

definition host_has_least_order :: "game \<Rightarrow> bool" where
  "host_has_least_order g =
     (case host g of
        None \<Rightarrow> False
      | Some h \<Rightarrow>
          (case map_of (players g) h of
             None \<Rightarrow> False
           | Some p \<Rightarrow> list_all (\<lambda>(a, q). order p \<le> order q) (players g)))"


section \<open>The identity layer (my\_modules/platform/auth.py)\<close>

subsection \<open>Session tokens\<close>

text \<open>
  The two module-level dictionaries are the state. \<open>datetime.now()\<close> is an argument
  of each operation (\<open>create_token\<close> reads the clock twice), in microseconds, and so
  is the token that \<open>secrets.token_urlsafe(32)\<close> draws.
\<close>

type_synonym token = string
type_synonym time = int

record token_info =
  account :: account
  created_at :: time
  expires_at :: time

record auth_state =
  active_tokens :: "(token \<times> token_info) list"
  user_tokens :: "(account \<times> token) list"

definition no_tokens :: auth_state where
  "no_tokens = \<lparr>active_tokens = [], user_tokens = []\<rparr>"

definition seven_days :: time where
  "seven_days = 7 * 24 * 60 * 60 * 1000000"

definition create_token ::
  "time \<Rightarrow> time \<Rightarrow> token \<Rightarrow> auth_state \<Rightarrow> account \<Rightarrow> auth_state \<times> token" where
  "create_token now1 now2 tok st acc =
     (let st1 =
            (case map_of (user_tokens st) acc of
               Some old_token \<Rightarrow>
                 if dict_has (active_tokens st) old_token
                 then st\<lparr>active_tokens := AList.delete old_token (active_tokens st)\<rparr>
                 else st
             | None \<Rightarrow> st);
          expires = now1 + seven_days;
          st2 = st1\<lparr>active_tokens :=
                  AList.update tok \<lparr>account = acc, created_at = now2, expires_at = expires\<rparr>
                    (active_tokens st1)\<rparr>;
          st3 = st2\<lparr>user_tokens := AList.update acc tok (user_tokens st2)\<rparr>
      in (st3, tok))"

text \<open>
  \<open>verify_token\<close> (on expiry) and \<open>revoke_token\<close> run the same three statements:
  delete the token's record, then delete the account's entry if it still names this token.
\<close>

definition forget_token :: "auth_state \<Rightarrow> token \<Rightarrow> account \<Rightarrow> auth_state" where
  "forget_token st tok acc =
     (let st1 = st\<lparr>active_tokens := AList.delete tok (active_tokens st)\<rparr>
      in if map_of (user_tokens st1) acc = Some tok
         then st1\<lparr>user_tokens := AList.delete acc (user_tokens st1)\<rparr>
         else st1)"

definition verify_token :: "time \<Rightarrow> auth_state \<Rightarrow> token \<Rightarrow> auth_state \<times> account option" where
  "verify_token now st tok =
     (if tok = [] \<or> \<not> dict_has (active_tokens st) tok then (st, None)
      else
        (case map_of (active_tokens st) tok of
           None \<Rightarrow> (st, None)
         | Some token_info \<Rightarrow>
             if now > expires_at token_info
             then (forget_token st tok (account token_info), None)
             else (st, Some (account token_info))))"

definition revoke_token :: "auth_state \<Rightarrow> token \<Rightarrow> auth_state \<times> bool" where
  "revoke_token st tok =
     (case map_of (active_tokens st) tok of
        Some token_info \<Rightarrow> (forget_token st tok (account token_info), True)
      | None \<Rightarrow> (st, False))"

subsection \<open>Histories of the token store\<close>

datatype auth_op =
    CreateToken account token time time
  | VerifyToken token time
  | RevokeToken token

fun apply_auth_op :: "auth_state \<Rightarrow> auth_op \<Rightarrow> auth_state" where
  "apply_auth_op st (CreateToken acc tok now1 now2) = fst (create_token now1 now2 tok st acc)"
| "apply_auth_op st (VerifyToken tok now) = fst (verify_token now st tok)"
| "apply_auth_op st (RevokeToken tok) = fst (revoke_token st tok)"

definition run_auth :: "auth_op list \<Rightarrow> auth_state" where
  "run_auth ops = foldl apply_auth_op no_tokens ops"

text \<open>The accounts and tokens of the \<open>create_token\<close> calls of a history.\<close>

fun created :: "auth_op list \<Rightarrow> (account \<times> token) list" where
  "created [] = []"
| "created (CreateToken acc tok now1 now2 # ops) = (acc, tok) # created ops"
| "created (VerifyToken tok now # ops) = created ops"
| "created (RevokeToken tok # ops) = created ops"

text \<open>
  The invariant of the store: both dictionaries hold each key once, and the token that
  \<open>user_tokens\<close> gives an account has a record in \<open>active_tokens\<close> that names this
  account.
\<close>

definition token_inv :: "auth_state \<Rightarrow> bool" where
  "token_inv st =
     (distinct (dict_keys (user_tokens st)) \<and>
      distinct (dict_keys (active_tokens st)) \<and>
      list_all
        (\<lambda>(a, t). case map_of (active_tokens st) t of
                     None \<Rightarrow> False
                   | Some i \<Rightarrow> account i = a)
        (user_tokens st))"


subsection \<open>The user file at start-up\<close>

text \<open>
  \<open>users.json\<close> is absent, or holds text that \<open>json.load\<close> rejects, or parses to a
  value. \<open>init_users\<close> returns the file as it leaves it and the exception it raised,
  if any; it raises before it writes. Assigning \<open>user['room']\<close> on a value that is
  not a dictionary raises \<open>TypeError\<close>, and \<open>data.values()\<close> on one raises
  \<open>AttributeError\<close>.
\<close>

datatype user_file = Absent | Malformed | Parsed pyval

fun clear_rooms :: "(string \<times> pyval) list \<Rightarrow> py_error + (string \<times> pyval) list" where
  "clear_rooms [] = Inr []"
| "clear_rooms ((k, PDict user) # rest) =
     (case clear_rooms rest of
        Inl e \<Rightarrow> Inl e
      | Inr rest' \<Rightarrow> Inr ((k, PDict (AList.update ''room'' PNone user)) # rest'))"
| "clear_rooms ((k, v) # rest) = Inl TypeError"

definition init_users :: "user_file \<Rightarrow> user_file \<times> py_error option" where
  "init_users f =
     (case f of
        Absent \<Rightarrow> (Parsed (PDict []), None)
      | Malformed \<Rightarrow> (f, Some JSONDecodeError)
      | Parsed (PDict data) \<Rightarrow>
          (case clear_rooms data of
             Inl e \<Rightarrow> (f, Some e)
           | Inr data' \<Rightarrow> (Parsed (PDict data'), None))
      | Parsed _ \<Rightarrow> (f, Some AttributeError))"

definition is_dict :: "pyval \<Rightarrow> bool" where
  "is_dict v = (case v of PDict _ \<Rightarrow> True | _ \<Rightarrow> False)"

definition field_of :: "pyval \<Rightarrow> string \<Rightarrow> pyval option" where
  "field_of v k = (case v of PDict user \<Rightarrow> map_of user k | _ \<Rightarrow> None)"

section \<open>Game discovery (app.py)\<close>

text \<open>
  Modelled from the spec: the registry (games/game\_registry.py) is not among the
  sources. It holds the registered entries in registration order, each a dictionary as
  \<open>register_game\<close> returns it, and \<open>get_available_games\<close> produces them in that
  order.
\<close>

type_synonym registry = "(string \<times> pyval) list list"

definition get_available_games :: "registry \<Rightarrow> (string \<times> pyval) list list" where
  "get_available_games reg = reg"

text \<open>\<open>game[k]\<close> raises \<open>KeyError\<close> for a key that the dictionary lacks.\<close>

definition getitem :: "(string \<times> pyval) list \<Rightarrow> string \<Rightarrow> py_error + pyval" where
  "getitem d k = (case map_of d k of None \<Rightarrow> Inl KeyError | Some v \<Rightarrow> Inr v)"

fun build_dict :: "(string \<times> pyval) list \<Rightarrow> string list \<Rightarrow> py_error + (string \<times> pyval) list" where
  "build_dict game [] = Inr []"
| "build_dict game (k # ks) =
     (case getitem game k of
        Inl e \<Rightarrow> Inl e
      | Inr v \<Rightarrow>
          (case build_dict game ks of
             Inl e \<Rightarrow> Inl e
           | Inr d \<Rightarrow> Inr ((k, v) # d)))"

definition public_fields :: "string list" where
  "public_fields = [''id'', ''name'', ''description'', ''min_players'', ''max_players'']"

fun game_list_loop ::
  "(string \<times> pyval) list list \<Rightarrow> pyval list \<Rightarrow> py_error + pyval list" where
  "game_list_loop [] game_list = Inr game_list"
| "game_list_loop (game # games) game_list =
     (case build_dict game public_fields of
        Inl e \<Rightarrow> Inl e
      | Inr d \<Rightarrow> game_list_loop games (game_list @ [PDict d]))"

definition available_games :: "registry \<Rightarrow> py_error + pyval" where
  "available_games reg =
     (case game_list_loop (get_available_games reg) [] of
        Inl e \<Rightarrow> Inl e
      | Inr game_list \<Rightarrow> Inr (PDict [(''games'', PList game_list)]))"


section \<open>Notions used in the proofs\<close>

text \<open>
  The dictionary of players against the join history: the keys are distinct, they are the
  accounts of the history, and along the dictionary the positions of the joins increase.
\<close>

definition log_inv :: "nat \<Rightarrow> (account \<rightharpoonup> nat) \<Rightarrow> game \<Rightarrow> bool" where
  "log_inv i m g \<longleftrightarrow>
     distinct (dict_keys (players g)) \<and>
     dom m = set (dict_keys (players g)) \<and>
     sorted_wrt (<) (map (\<lambda>k. the (m k)) (dict_keys (players g))) \<and>
     (\<forall>k \<in> dom m. the (m k) < i)"

text \<open>What the loop of \<open>init_users\<close> does to one user.\<close>

definition set_room_none :: "pyval \<Rightarrow> pyval" where
  "set_room_none v = (case v of PDict user \<Rightarrow> PDict (AList.update ''room'' PNone user) | _ \<Rightarrow> v)"

text \<open>The dictionary that the discovery route builds from an entry with all five fields.\<close>

definition public_entry :: "(string \<times> pyval) list \<Rightarrow> pyval" where
  "public_entry game = PDict (map (\<lambda>k. (k, the (map_of game k))) public_fields)"

section \<open>Dictionaries\<close>

lemma dict_has_keys: "dict_has d k \<longleftrightarrow> k \<in> set (dict_keys d)"
  by (simp add: dict_has_def dict_keys_def map_of_eq_None_iff)

lemma keys_update_new:
  "\<not> dict_has d k \<Longrightarrow> dict_keys (AList.update k v d) = dict_keys d @ [k]"
  by (simp add: dict_has_keys dict_keys_def update_keys)

lemma keys_delete: "dict_keys (AList.delete k d) = removeAll k (dict_keys d)"
  by (simp add: dict_keys_def delete_keys)

lemma map_of_update: "map_of (AList.update k v d) = (map_of d)(k \<mapsto> v)"
  by (rule update_conv')

lemma map_of_delete: "map_of (AList.delete k d) = (map_of d)(k := None)"
  by (rule delete_conv')

lemma keys_distinct_update: "distinct (dict_keys d) \<Longrightarrow> distinct (dict_keys (AList.update k v d))"
  by (simp add: dict_keys_def distinct_update)

lemma keys_distinct_delete: "distinct (dict_keys d) \<Longrightarrow> distinct (dict_keys (AList.delete k d))"
  by (simp add: dict_keys_def distinct_delete)

lemma map_of_tabulate:
  "map_of (map (\<lambda>k. (k, f k)) ks) k = (if k \<in> set ks then Some (f k) else None)"
  by (induction ks) auto

section \<open>The roulette game: joining, leaving and the host\<close>

lemma players_join_new:
  "\<not> dict_has (players g) acc \<Longrightarrow>
   dict_keys (players (fst (join g acc pid))) = dict_keys (players g) @ [acc]"
  by (simp add: join_def Let_def keys_update_new)

lemma join_present: "dict_has (players g) acc \<Longrightarrow> join g acc pid = (g, None)"
  by (simp add: join_def)

lemma players_leave:
  "dict_keys (players (leave g acc)) = removeAll acc (dict_keys (players g))"
  by (auto simp: leave_def Let_def keys_delete dict_has_keys split: list.splits)

lemma log_inv_join:
  assumes "log_inv i m g"
  shows "log_inv (Suc i) (if m acc \<noteq> None then m else m(acc \<mapsto> i)) (fst (join g acc pid))"
proof (cases "dict_has (players g) acc")
  case True
  then have "m acc \<noteq> None" using assms by (auto simp: log_inv_def dict_has_keys)
  with True assms show ?thesis by (auto simp: join_present log_inv_def intro: less_SucI)
next
  case False
  let ?ks = "dict_keys (players g)"
  from False assms have none: "m acc = None" and notin: "acc \<notin> set ?ks"
    by (auto simp: log_inv_def dict_has_keys)
  have same: "map (\<lambda>k. the ((m(acc \<mapsto> i)) k)) ?ks = map (\<lambda>k. the (m k)) ?ks"
    using notin by (intro map_cong) auto
  have "sorted_wrt (<) (map (\<lambda>k. the ((m(acc \<mapsto> i)) k)) (?ks @ [acc]))"
    unfolding map_append same using assms
    by (auto simp: log_inv_def sorted_wrt_append)
  moreover have "distinct (?ks @ [acc])" using assms notin by (simp add: log_inv_def)
  moreover have "dom (m(acc \<mapsto> i)) = set (?ks @ [acc])"
    using assms by (auto simp: log_inv_def)
  moreover have "\<forall>k \<in> dom (m(acc \<mapsto> i)). the ((m(acc \<mapsto> i)) k) < Suc i"
    using assms by (auto simp: log_inv_def intro: less_SucI)
  ultimately show ?thesis
    unfolding log_inv_def players_join_new[OF False] using none by simp
qed

lemma log_inv_leave:
  assumes "log_inv i m g"
  shows "log_inv (Suc i) (m(acc := None)) (leave g acc)"
proof -
  let ?ks = "removeAll acc (dict_keys (players g))"
  have same: "map (\<lambda>k. the ((m(acc := None)) k)) ?ks = map (\<lambda>k. the (m k)) ?ks"
    by (intro map_cong) auto
  have "sorted_wrt (<) (map (\<lambda>k. the (m k)) ?ks)"
    using assms unfolding log_inv_def removeAll_filter_not_eq
    by (simp add: sorted_wrt_map sorted_wrt_filter)
  then have "sorted_wrt (<) (map (\<lambda>k. the ((m(acc := None)) k)) ?ks)"
    unfolding same .
  moreover have "distinct ?ks" using assms by (simp add: log_inv_def distinct_removeAll)
  moreover have "dom (m(acc := None)) = set ?ks" using assms by (auto simp: log_inv_def)
  moreover have "\<forall>k \<in> dom (m(acc := None)). the ((m(acc := None)) k) < Suc i"
    using assms by (auto simp: log_inv_def intro: less_SucI)
  ultimately show ?thesis
    unfolding log_inv_def players_leave by simp
qed

lemma log_inv_run:
  "log_inv i m g \<Longrightarrow> \<exists>j. log_inv j (join_log i ops m) (foldl apply_op g ops)"
proof (induction ops arbitrary: i m g)
  case Nil
  then show ?case by auto
next
  case (Cons x ops)
  show ?case
  proof (cases x)
    case (Join acc pid)
    have "\<exists>j. log_inv j (join_log (Suc i) ops (if m acc \<noteq> None then m else m(acc \<mapsto> i)))
            (foldl apply_op (fst (join g acc pid)) ops)"
      by (rule Cons.IH[OF log_inv_join[OF Cons.prems]])
    then show ?thesis unfolding Join by (simp del: fun_upd_apply)
  next
    case (Leave acc)
    have "\<exists>j. log_inv j (join_log (Suc i) ops (m(acc := None)))
            (foldl apply_op (leave g acc) ops)"
      by (rule Cons.IH[OF log_inv_leave[OF Cons.prems]])
    then show ?thesis unfolding Leave by (simp del: fun_upd_apply)
  qed
qed

lemma log_inv_init: "log_inv 0 Map.empty (init rid)"
  by (simp add: log_inv_def init_def base_init_def dict_keys_def)

lemma log_inv_reachable: "\<exists>j. log_inv j (join_log 0 ops Map.empty) (run rid ops)"
  unfolding run_def by (rule log_inv_run[OF log_inv_init])


lemma host_leave:
  assumes "dict_has (players g) acc" and "host g = Some acc"
    and "dict_keys (players (leave g acc)) = h # rest"
  shows "host (leave g acc) = Some h"
proof -
  from assms(3) have "removeAll acc (dict_keys (players g)) = h # rest"
    by (simp add: players_leave)
  then have "dict_keys (AList.delete acc (players g)) = h # rest"
    by (simp add: keys_delete)
  with assms(1,2) show ?thesis
    by (simp add: leave_def Let_def)
qed

text \<open>
  Claim C1. Take any sequence of join and leave calls on a new game. If the host then
  leaves and a player remains, the new host is the remaining player who joined earliest:
  the new host is present, and the call that let it in stands in the sequence strictly
  before the call that let in any other remaining player.
\<close>

theorem host_after_leave_is_earliest_joined:
  assumes "host (run rid ops) = Some acc"
    and "dict_has (players (run rid ops)) acc"
    and "players (leave (run rid ops) acc) \<noteq> []"
  shows "\<exists>h t. host (leave (run rid ops) acc) = Some h \<and>
           dict_has (players (leave (run rid ops) acc)) h \<and>
           joined_at ops h = Some t \<and>
           list_all (\<lambda>(c, p). c = h \<or> (\<exists>u. joined_at ops c = Some u \<and> t < u))
             (players (leave (run rid ops) acc))"
proof -
  let ?g = "run rid ops" and ?m = "join_log 0 ops Map.empty"
  let ?ks = "dict_keys (players (leave ?g acc))"
  obtain j where inv: "log_inv j ?m ?g" using log_inv_reachable by blast
  from assms(3) obtain h rest where ks: "?ks = h # rest"
    by (cases "players (leave ?g acc)") (auto simp: dict_keys_def)
  have hst: "host (leave ?g acc) = Some h"
    by (rule host_leave[OF assms(2) assms(1) ks])
  have sub: "set ?ks \<subseteq> set (dict_keys (players ?g))"
    by (auto simp: players_leave)
  have "sorted_wrt (<) (map (\<lambda>k. the (?m k)) ?ks)"
    using inv unfolding log_inv_def players_leave removeAll_filter_not_eq
    by (simp add: sorted_wrt_map sorted_wrt_filter)
  then have less: "\<forall>c \<in> set rest. the (?m h) < the (?m c)"
    unfolding ks by simp
  have defined: "\<forall>c \<in> set ?ks. \<exists>u. ?m c = Some u"
    using inv sub unfolding log_inv_def by blast
  then obtain t where t: "?m h = Some t" unfolding ks by auto
  have "\<forall>c \<in> set ?ks. c = h \<or> (\<exists>u. ?m c = Some u \<and> t < u)"
  proof
    fix c assume c: "c \<in> set ?ks"
    show "c = h \<or> (\<exists>u. ?m c = Some u \<and> t < u)"
    proof (cases "c = h")
      case False
      with c ks have "c \<in> set rest" by simp
      with less t have "t < the (?m c)" by simp
      moreover from defined c obtain u where "?m c = Some u" by blast
      ultimately show ?thesis by simp
    qed simp
  qed
  then have all: "list_all (\<lambda>(c, p). c = h \<or> (\<exists>u. joined_at ops c = Some u \<and> t < u))
             (players (leave ?g acc))"
    unfolding list_all_iff joined_at_def dict_keys_def by auto
  have "dict_has (players (leave ?g acc)) h"
    unfolding dict_has_keys ks by simp
  with hst t all show ?thesis unfolding joined_at_def by blast
qed


lemma run_trace:
  "run ''r'' [Join ''A'' ''a'', Join ''B'' ''b'', Join ''C'' ''c'', Join ''D'' ''d'',
              Leave ''A'', Leave ''B'', Join ''E'' ''e''] =
   (init ''r'')\<lparr>players := [(''C'', \<lparr>ID = ''c'', order = 3\<rparr>), (''D'', \<lparr>ID = ''d'', order = 4\<rparr>),
       (''E'', \<lparr>ID = ''e'', order = 3\<rparr>)], host := Some ''C''\<rparr>"
  by (simp add: run_def init_def base_init_def join_def leave_def dict_has_def dict_keys_def Let_def)

theorem host_after_leave_is_earliest_joined_witness:
  "host (run ''r'' [Join ''A'' ''a'', Join ''B'' ''b'', Join ''C'' ''c'', Join ''D'' ''d'',
                    Leave ''A'', Leave ''B'', Join ''E'' ''e'']) = Some ''C'' \<and>
   host (leave (run ''r'' [Join ''A'' ''a'', Join ''B'' ''b'', Join ''C'' ''c'', Join ''D'' ''d'',
                    Leave ''A'', Leave ''B'', Join ''E'' ''e'']) ''C'') = Some ''D'' \<and>
   joined_at [Join ''A'' ''a'', Join ''B'' ''b'', Join ''C'' ''c'', Join ''D'' ''d'',
              Leave ''A'', Leave ''B'', Join ''E'' ''e''] ''D'' = Some 3 \<and>
   joined_at [Join ''A'' ''a'', Join ''B'' ''b'', Join ''C'' ''c'', Join ''D'' ''d'',
              Leave ''A'', Leave ''B'', Join ''E'' ''e''] ''E'' = Some 6"
proof -
  let ?ops = "[Join ''A'' ''a'', Join ''B'' ''b'', Join ''C'' ''c'', Join ''D'' ''d'',
               Leave ''A'', Leave ''B'', Join ''E'' ''e'']"
  have h1: "host (run ''r'' ?ops) = Some ''C''" by (simp add: run_trace)
  have h2: "dict_has (players (run ''r'' ?ops)) ''C''" by (simp add: run_trace dict_has_def)
  have lv: "leave (run ''r'' ?ops) ''C'' =
    (init ''r'')\<lparr>players := [(''D'', \<lparr>ID = ''d'', order = 4\<rparr>), (''E'', \<lparr>ID = ''e'', order = 3\<rparr>)],
      host := Some ''D''\<rparr>"
    by (simp add: run_trace leave_def dict_has_def dict_keys_def Let_def)
  have h3: "players (leave (run ''r'' ?ops) ''C'') \<noteq> []" by (simp add: lv)
  have j: "joined_at ?ops ''D'' = Some 3" "joined_at ?ops ''E'' = Some 6"
    by (simp_all add: joined_at_def)
  from host_after_leave_is_earliest_joined [OF h1 h2 h3] h1 j show ?thesis
    by (simp add: lv)
qed

text \<open>
  The order number that a player holds is another matter: in the same run the new host
  holds order number 4 while a player who joined later holds 3.
\<close>

lemma host_order_number_not_least:
  "\<not> host_has_least_order
       (leave (run ''r'' [Join ''A'' ''a'', Join ''B'' ''b'', Join ''C'' ''c'', Join ''D'' ''d'',
                          Leave ''A'', Leave ''B'', Join ''E'' ''e'']) ''C'')"
  by (simp add: run_trace leave_def dict_has_def dict_keys_def Let_def host_has_least_order_def
        init_def base_init_def)

text \<open>
  A join of an absent account adds it at the end of the dictionary with the order number
  \<open>len(players) + 1\<close>, and the first join of a new game sets the host.
\<close>

lemma join_new_account:
  assumes "\<not> dict_has (players g) acc"
  shows "snd (join g acc pid) = Some (length (players g) + 1) \<and>
         map_of (players (fst (join g acc pid))) acc =
           Some \<lparr>ID = pid, order = length (players g) + 1\<rparr>"
  using assms by (simp add: join_def Let_def update_conv')

lemma first_join_sets_host:
  "host (fst (join (init rid) acc pid)) = Some acc \<and> snd (join (init rid) acc pid) = Some 1"
  by (simp add: join_def init_def base_init_def dict_has_def Let_def)

text \<open>
  Claim C2. On a new game the k-th successful join returns k, so that the players present
  hold distinct order numbers. The code returns \<open>len(players) + 1\<close>: after
  join A, join B, leave A, the third successful join (of C) returns 2, and B and C both
  hold order number 2.
\<close>

theorem order_numbers_repeat_after_leave:
  "join_results (init ''r'') [Join ''A'' ''a'', Join ''B'' ''b'', Leave ''A'', Join ''C'' ''c'']
     = [1, 2, 2] \<and>
   map (\<lambda>(a, p). (a, order p))
     (players (run ''r'' [Join ''A'' ''a'', Join ''B'' ''b'', Leave ''A'', Join ''C'' ''c'']))
     = [(''B'', 2), (''C'', 2)]"
  by (simp add: run_def init_def base_init_def join_def leave_def dict_has_def dict_keys_def Let_def)


section \<open>The roulette game: start and events\<close>

text \<open>
  Claim C3. \<open>start\<close> returns true exactly when a player is present, which is the
  minimum of 1 in the catalogue entry; when it returns true the game is the old one with
  the started flag set, and when it returns false the game is unchanged.
\<close>

theorem start_iff_player_present:
  "snd (start g) = (players g \<noteq> []) \<and>
   snd (start g) =
     (\<exists>n. map_of register_game ''min_players'' = Some (PInt n) \<and> n \<le> int (length (players g))) \<and>
   (snd (start g) \<longrightarrow> fst (start g) = g\<lparr>started := True\<rparr> \<and> started (fst (start g))) \<and>
   (\<not> snd (start g) \<longrightarrow> fst (start g) = g)"
proof -
  have "map_of register_game ''min_players'' = Some (PInt 1)"
    by (simp add: register_game_def)
  moreover have "((1::int) \<le> int (length (players g))) = (players g \<noteq> [])"
    by (cases "players g") auto
  ultimately show ?thesis by (simp add: start_def)
qed

theorem start_iff_player_present_witness:
  "snd (start ((init ''r'')\<lparr>players := [(''A'', \<lparr>ID = ''a'', order = 1\<rparr>)]\<rparr>)) \<and>
   started (fst (start ((init ''r'')\<lparr>players := [(''A'', \<lparr>ID = ''a'', order = 1\<rparr>)]\<rparr>))) \<and>
   \<not> snd (start (init ''r'')) \<and>
   fst (start (init ''r'')) = init ''r''"
  using start_iff_player_present [of "(init ''r'')\<lparr>players := [(''A'', \<lparr>ID = ''a'', order = 1\<rparr>)]\<rparr>"]
        start_iff_player_present [of "init ''r''"]
  by (simp add: init_def base_init_def)

text \<open>
  Claim C6. Joining with an account that is already among the players returns
  \<open>None\<close> and leaves the game as it was: the players, their order numbers and the
  host.
\<close>

theorem rejoin_is_noop:
  assumes "dict_has (players g) acc"
  shows "snd (join g acc player_id) = None \<and>
         fst (join g acc player_id) = g \<and>
         players (fst (join g acc player_id)) = players g \<and>
         host (fst (join g acc player_id)) = host g"
  using assms by (simp add: join_def)

theorem rejoin_is_noop_witness:
  "dict_has (players (fst (join (init ''r'') ''A'' ''a''))) ''A'' \<and>
   snd (join (fst (join (init ''r'') ''A'' ''a'')) ''A'' ''a2'') = None \<and>
   fst (join (fst (join (init ''r'') ''A'' ''a'')) ''A'' ''a2'') = fst (join (init ''r'') ''A'' ''a'')"
proof -
  have h: "dict_has (players (fst (join (init ''r'') ''A'' ''a''))) ''A''"
    by (simp add: join_def init_def base_init_def dict_has_def Let_def)
  from rejoin_is_noop [OF h, of "''a2''"] h show ?thesis by simp
qed

text \<open>
  Claim C4. For a payload whose \<open>event_name\<close> is not \<open>test_input\<close> (or is
  missing), \<open>handle_event\<close> raises nothing and returns a result with \<open>ok\<close> false,
  a message and \<open>broadcast\<close> false; the game is unchanged.
\<close>

theorem unknown_event_rejected:
  assumes "map_of data ''event_name'' \<noteq> Some (PStr ''test_input'')"
  shows "\<exists>res m. handle_event fmt g acc data = Inr (g, res) \<and>
           map_of res ''ok'' = Some (PBool False) \<and>
           map_of res ''msg'' = Some (PStr m) \<and>
           map_of res ''broadcast'' = Some (PBool False)"
  using assms by (simp add: handle_event_def)

theorem unknown_event_rejected_witness:
  "map_of [(''event_name'', PStr ''spin''), (''event_data'', PInt 3)] ''event_name''
     \<noteq> Some (PStr ''test_input'') \<and>
   (\<exists>res m. handle_event (\<lambda>v. []) (init ''r'') ''A''
       [(''event_name'', PStr ''spin''), (''event_data'', PInt 3)] = Inr (init ''r'', res) \<and>
      map_of res ''ok'' = Some (PBool False) \<and>
      map_of res ''msg'' = Some (PStr m) \<and>
      map_of res ''broadcast'' = Some (PBool False))"
proof -
  have h: "map_of [(''event_name'', PStr ''spin''), (''event_data'', PInt 3)] ''event_name''
     \<noteq> Some (PStr ''test_input'')" by simp
  from unknown_event_rejected [OF h, of "\<lambda>v. []" "init ''r''" "''A''"] h show ?thesis by blast
qed

text \<open>
  Claim C5. For every account and every string \<open>s\<close>, the event
  \<open>{event_name: 'test_input', event_data: {input: s}}\<close> gets a result with \<open>ok\<close>
  true, \<open>broadcast\<close> true and \<open>echo\<close> equal to \<open>s\<close>; the game is unchanged.
\<close>

theorem test_input_echoed:
  "\<exists>res. handle_event fmt g acc
       [(''event_name'', PStr ''test_input''), (''event_data'', PDict [(''input'', PStr s)])]
       = Inr (g, res) \<and>
     map_of res ''ok'' = Some (PBool True) \<and>
     map_of res ''broadcast'' = Some (PBool True) \<and>
     map_of res ''echo'' = Some (PStr s)"
  by (simp add: handle_event_def attr_get_def dict_get_default_def)


theorem test_input_echoed_witness:
  "\<exists>res. handle_event (\<lambda>v. []) (init ''r'') ''B''
       [(''event_name'', PStr ''test_input''), (''event_data'', PDict [(''input'', PStr ''hi'')])]
       = Inr (init ''r'', res) \<and>
     map_of res ''ok'' = Some (PBool True) \<and>
     map_of res ''broadcast'' = Some (PBool True) \<and>
     map_of res ''echo'' = Some (PStr ''hi'')"
  by (rule test_input_echoed)

section \<open>Session tokens\<close>

lemma token_inv_iff:
  "token_inv st \<longleftrightarrow>
     distinct (dict_keys (user_tokens st)) \<and>
     distinct (dict_keys (active_tokens st)) \<and>
     (\<forall>a t. map_of (user_tokens st) a = Some t \<longrightarrow>
        (\<exists>i. map_of (active_tokens st) t = Some i \<and> account i = a))"
proof (cases "distinct (map fst (user_tokens st))")
  case True
  have "list_all (\<lambda>(a, t). case map_of (active_tokens st) t of None \<Rightarrow> False
                            | Some i \<Rightarrow> account i = a) (user_tokens st) =
        (\<forall>a t. (a, t) \<in> set (user_tokens st) \<longrightarrow>
           (\<exists>i. map_of (active_tokens st) t = Some i \<and> account i = a))"
    unfolding list_all_iff by (fastforce split: option.splits)
  with True show ?thesis unfolding token_inv_def dict_keys_def by simp
next
  case False
  then show ?thesis unfolding token_inv_def dict_keys_def by simp
qed

lemma token_inv_forget:
  assumes "token_inv st" and "map_of (active_tokens st) tok = Some i"
  shows "token_inv (forget_token st tok (account i))"
proof -
  from assms(1) have du: "distinct (dict_keys (user_tokens st))"
    and da: "distinct (dict_keys (active_tokens st))"
    and link: "\<And>a t. map_of (user_tokens st) a = Some t \<Longrightarrow>
        \<exists>j. map_of (active_tokens st) t = Some j \<and> account j = a"
    unfolding token_inv_iff by blast+
  have owner: "a = account i" if "map_of (user_tokens st) a = Some tok" for a
    using link[OF that] assms(2) by auto
  show ?thesis
  proof (cases "map_of (user_tokens st) (account i) = Some tok")
    case True
    then have eq: "forget_token st tok (account i) =
        st\<lparr>active_tokens := AList.delete tok (active_tokens st),
           user_tokens := AList.delete (account i) (user_tokens st)\<rparr>"
      by (simp add: forget_token_def Let_def)
    show ?thesis unfolding eq token_inv_iff
      using du da link owner
      by (auto simp: map_of_delete keys_distinct_delete)
  next
    case False
    then have eq: "forget_token st tok (account i) =
        st\<lparr>active_tokens := AList.delete tok (active_tokens st)\<rparr>"
      by (simp add: forget_token_def Let_def)
    show ?thesis unfolding eq token_inv_iff
      using du da link owner False
      by (auto simp: map_of_delete keys_distinct_delete)
  qed
qed

lemma token_inv_verify: "token_inv st \<Longrightarrow> token_inv (fst (verify_token now st tok))"
  by (auto simp: verify_token_def token_inv_forget split: option.splits)

lemma token_inv_revoke: "token_inv st \<Longrightarrow> token_inv (fst (revoke_token st tok))"
  by (auto simp: revoke_token_def token_inv_forget split: option.splits)

lemma token_inv_create:
  assumes "token_inv st" and "\<not> dict_has (active_tokens st) tok"
  shows "token_inv (fst (create_token now1 now2 tok st acc))"
proof -
  from assms(1) have du: "distinct (dict_keys (user_tokens st))"
    and da: "distinct (dict_keys (active_tokens st))"
    and link: "\<And>a t. map_of (user_tokens st) a = Some t \<Longrightarrow>
        \<exists>j. map_of (active_tokens st) t = Some j \<and> account j = a"
    unfolding token_inv_iff by blast+
  from assms(2) have fresh: "map_of (active_tokens st) tok = None"
    by (simp add: dict_has_def)
  have unused: "map_of (user_tokens st) a \<noteq> Some tok" for a
    using link[of a tok] fresh by auto
  show ?thesis
  proof (cases "map_of (user_tokens st) acc")
    case None
    then have eq: "fst (create_token now1 now2 tok st acc) =
        st\<lparr>active_tokens := AList.update tok
              \<lparr>account = acc, created_at = now2, expires_at = now1 + seven_days\<rparr>
              (active_tokens st),
           user_tokens := AList.update acc tok (user_tokens st)\<rparr>"
      by (simp add: create_token_def Let_def)
    show ?thesis unfolding eq token_inv_iff
      using du da link unused
      by (auto simp: map_of_update keys_distinct_update)
  next
    case (Some old)
    then obtain j where j: "map_of (active_tokens st) old = Some j" "account j = acc"
      using link by blast
    have owner: "a = acc" if "map_of (user_tokens st) a = Some old" for a
      using link[OF that] j by auto
    from Some j have eq: "fst (create_token now1 now2 tok st acc) =
        st\<lparr>active_tokens := AList.update tok
              \<lparr>account = acc, created_at = now2, expires_at = now1 + seven_days\<rparr>
              (AList.delete old (active_tokens st)),
           user_tokens := AList.update acc tok (user_tokens st)\<rparr>"
      by (simp add: create_token_def Let_def dict_has_def)
    show ?thesis unfolding eq token_inv_iff
      using du da link unused owner
      by (auto simp: map_of_update map_of_delete keys_distinct_update keys_distinct_delete)
  qed
qed

lemma old_token_dead:
  assumes "token_inv st" and "\<not> dict_has (active_tokens st) tok"
    and "map_of (user_tokens st) acc = Some old"
  shows "snd (verify_token now (fst (create_token now1 now2 tok st acc)) old) = None"
proof -
  from assms(1,3) obtain i where "map_of (active_tokens st) old = Some i"
    unfolding token_inv_iff by blast
  with assms(2) have ne: "tok \<noteq> old" and has: "dict_has (active_tokens st) old"
    by (auto simp: dict_has_def)
  have "map_of (active_tokens (fst (create_token now1 now2 tok st acc))) old = None"
    using assms(3) ne has
    by (simp add: create_token_def Let_def map_of_update map_of_delete)
  then show ?thesis by (simp add: verify_token_def dict_has_def)
qed


lemma token_inv_no_tokens: "token_inv no_tokens"
  by (simp add: token_inv_def no_tokens_def dict_keys_def)

text \<open>
  Claim C9. \<open>create_token\<close>, \<open>verify_token\<close> and \<open>revoke_token\<close> preserve the
  invariant that an account has at most one token in \<open>user_tokens\<close> and that the
  record of this token in \<open>active_tokens\<close> names the account; and after a second
  \<open>create_token\<close> for an account its earlier token resolves to no account. The token
  that \<open>create_token\<close> draws at random is taken to be new: not a key of
  \<open>active_tokens\<close>.
\<close>

theorem token_store_invariant:
  assumes "token_inv st"
  shows "(\<not> dict_has (active_tokens st) tok \<longrightarrow>
            token_inv (fst (create_token now1 now2 tok st acc))) \<and>
         token_inv (fst (verify_token now st t)) \<and>
         token_inv (fst (revoke_token st t)) \<and>
         (\<forall>old. \<not> dict_has (active_tokens st) tok \<and> map_of (user_tokens st) acc = Some old \<longrightarrow>
            snd (verify_token now (fst (create_token now1 now2 tok st acc)) old) = None)"
  using assms
  by (simp add: token_inv_create token_inv_verify token_inv_revoke old_token_dead)

lemma first_login:
  "fst (create_token 0 1 ''t1'' no_tokens ''alice'') =
     \<lparr>active_tokens = [(''t1'', \<lparr>account = ''alice'', created_at = 1, expires_at = seven_days\<rparr>)],
      user_tokens = [(''alice'', ''t1'')]\<rparr>"
  by (simp add: create_token_def no_tokens_def Let_def)

theorem token_store_invariant_witness:
  "token_inv (fst (create_token 0 1 ''t1'' no_tokens ''alice'')) \<and>
   \<not> dict_has (active_tokens (fst (create_token 0 1 ''t1'' no_tokens ''alice''))) ''t2'' \<and>
   map_of (user_tokens (fst (create_token 0 1 ''t1'' no_tokens ''alice''))) ''alice'' = Some ''t1'' \<and>
   token_inv (fst (create_token 5 6 ''t2'' (fst (create_token 0 1 ''t1'' no_tokens ''alice'')) ''alice'')) \<and>
   token_inv (fst (verify_token 9 (fst (create_token 0 1 ''t1'' no_tokens ''alice'')) ''t1'')) \<and>
   token_inv (fst (revoke_token (fst (create_token 0 1 ''t1'' no_tokens ''alice'')) ''t1'')) \<and>
   snd (verify_token 9
         (fst (create_token 5 6 ''t2'' (fst (create_token 0 1 ''t1'' no_tokens ''alice'')) ''alice''))
         ''t1'') = None"
proof -
  let ?st = "fst (create_token 0 1 ''t1'' no_tokens ''alice'')"
  have h1: "token_inv ?st"
    by (simp add: first_login token_inv_def dict_keys_def)
  have h2: "\<not> dict_has (active_tokens ?st) ''t2''"
    by (simp add: first_login dict_has_def)
  have h3: "map_of (user_tokens ?st) ''alice'' = Some ''t1''"
    by (simp add: first_login)
  from token_store_invariant [OF h1, of "''t2''" 5 6 "''alice''" 9 "''t1''"] h1 h2 h3
  show ?thesis by blast
qed

lemma created_append: "created (xs @ ys) = created xs @ created ys"
  by (induction xs rule: created.induct) simp_all

lemma active_forget:
  "map_of (active_tokens (forget_token st tok a)) t = Some i \<Longrightarrow>
   map_of (active_tokens st) t = Some i"
  by (auto simp: forget_token_def Let_def map_of_delete split: if_splits)

lemma active_created:
  "map_of (active_tokens (run_auth ops)) t = Some i \<Longrightarrow> (account i, t) \<in> set (created ops)"
proof (induction ops arbitrary: t i rule: rev_induct)
  case Nil
  then show ?case by (simp add: run_auth_def no_tokens_def)
next
  case (snoc x ops)
  have step: "run_auth (ops @ [x]) = apply_auth_op (run_auth ops) x"
    by (simp add: run_auth_def)
  show ?case
  proof (cases x)
    case (CreateToken a tk n1 n2)
    with snoc.prems step
    have "(t = tk \<and> account i = a) \<or> map_of (active_tokens (run_auth ops)) t = Some i"
      by (auto simp: create_token_def Let_def map_of_update map_of_delete dict_has_def
               split: option.splits if_splits)
    with snoc.IH CreateToken show ?thesis by (auto simp: created_append)
  next
    case (VerifyToken tk n)
    with snoc.prems step have "map_of (active_tokens (run_auth ops)) t = Some i"
      by (auto simp: verify_token_def split: option.splits if_splits dest: active_forget)
    with snoc.IH VerifyToken show ?thesis by (auto simp: created_append)
  next
    case (RevokeToken tk)
    with snoc.prems step have "map_of (active_tokens (run_auth ops)) t = Some i"
      by (auto simp: revoke_token_def split: option.splits dest: active_forget)
    with snoc.IH RevokeToken show ?thesis by (auto simp: created_append)
  qed
qed

lemma verify_none_iff:
  "(snd (verify_token now st tok) = None) =
   (tok = [] \<or> map_of (active_tokens st) tok = None \<or>
    (\<exists>i. map_of (active_tokens st) tok = Some i \<and> expires_at i < now))"
  by (auto simp: verify_token_def dict_has_def split: option.splits)

lemma verify_some:
  "snd (verify_token now st tok) = Some a \<Longrightarrow>
   (\<exists>i. map_of (active_tokens st) tok = Some i \<and> account i = a) \<and>
   fst (verify_token now st tok) = st"
  by (auto simp: verify_token_def dict_has_def split: option.splits if_splits)

lemma verify_expired:
  assumes "tok \<noteq> []" and "map_of (active_tokens st) tok = Some i" and "expires_at i < now"
  shows "map_of (active_tokens (fst (verify_token now st tok))) tok = None \<and>
         map_of (user_tokens (fst (verify_token now st tok))) (account i) \<noteq> Some tok"
  using assms
  by (simp add: verify_token_def dict_has_def forget_token_def Let_def map_of_delete)

text \<open>
  Claim C7, as amended. After any history of the store, \<open>verify_token\<close> returns
  \<open>None\<close> exactly when the token is empty, has no record in \<open>active_tokens\<close>
  (it was never created, or it was revoked, replaced by a later login of its account, or
  removed when found expired), or is past the expiry time of its record. Otherwise it
  returns the account of the record, for which a \<open>create_token\<close> call of the history
  made this token, and the store is unchanged. For an expired token the record is deleted,
  and so is the entry of its account in \<open>user_tokens\<close> if it named this token.
\<close>

theorem verify_token_resolves:
  "(snd (verify_token now (run_auth ops) tok) = None) =
     (tok = [] \<or> map_of (active_tokens (run_auth ops)) tok = None \<or>
      (\<exists>i. map_of (active_tokens (run_auth ops)) tok = Some i \<and> expires_at i < now)) \<and>
   (\<forall>a. snd (verify_token now (run_auth ops) tok) = Some a \<longrightarrow>
      (a, tok) \<in> set (created ops) \<and>
      (\<exists>i. map_of (active_tokens (run_auth ops)) tok = Some i \<and> account i = a) \<and>
      fst (verify_token now (run_auth ops) tok) = run_auth ops) \<and>
   (\<forall>i. tok \<noteq> [] \<and> map_of (active_tokens (run_auth ops)) tok = Some i \<and> expires_at i < now \<longrightarrow>
      map_of (active_tokens (fst (verify_token now (run_auth ops) tok))) tok = None \<and>
      map_of (user_tokens (fst (verify_token now (run_auth ops) tok))) (account i) \<noteq> Some tok)"
proof (intro conjI allI impI)
  show "(snd (verify_token now (run_auth ops) tok) = None) =
     (tok = [] \<or> map_of (active_tokens (run_auth ops)) tok = None \<or>
      (\<exists>i. map_of (active_tokens (run_auth ops)) tok = Some i \<and> expires_at i < now))"
    by (rule verify_none_iff)
next
  fix a assume a: "snd (verify_token now (run_auth ops) tok) = Some a"
  from verify_some[OF a]
  show "\<exists>i. map_of (active_tokens (run_auth ops)) tok = Some i \<and> account i = a"
    and "fst (verify_token now (run_auth ops) tok) = run_auth ops" by blast+
  then show "(a, tok) \<in> set (created ops)" using active_created by blast
next
  fix i
  assume h: "tok \<noteq> [] \<and> map_of (active_tokens (run_auth ops)) tok = Some i \<and> expires_at i < now"
  then show "map_of (active_tokens (fst (verify_token now (run_auth ops) tok))) tok = None"
    and "map_of (user_tokens (fst (verify_token now (run_auth ops) tok))) (account i) \<noteq> Some tok"
    using verify_expired by blast+
qed

lemma history_login:
  "run_auth [CreateToken ''alice'' ''t1'' 0 1] =
     \<lparr>active_tokens = [(''t1'', \<lparr>account = ''alice'', created_at = 1, expires_at = seven_days\<rparr>)],
      user_tokens = [(''alice'', ''t1'')]\<rparr>"
  by (simp add: run_auth_def create_token_def no_tokens_def Let_def)

lemma history_logout:
  "run_auth [CreateToken ''alice'' ''t1'' 0 1, RevokeToken ''t1''] = no_tokens"
  by (simp add: run_auth_def create_token_def no_tokens_def Let_def revoke_token_def
        forget_token_def)

theorem verify_token_resolves_witness:
  "snd (verify_token 9 (run_auth [CreateToken ''alice'' ''t1'' 0 1]) ''t1'') = Some ''alice'' \<and>
   (''alice'', ''t1'') \<in> set (created [CreateToken ''alice'' ''t1'' 0 1]) \<and>
   fst (verify_token 9 (run_auth [CreateToken ''alice'' ''t1'' 0 1]) ''t1'') =
     run_auth [CreateToken ''alice'' ''t1'' 0 1] \<and>
   snd (verify_token (seven_days + 1) (run_auth [CreateToken ''alice'' ''t1'' 0 1]) ''t1'') = None \<and>
   map_of (active_tokens
      (fst (verify_token (seven_days + 1) (run_auth [CreateToken ''alice'' ''t1'' 0 1]) ''t1'')))
      ''t1'' = None"
proof -
  let ?st = "run_auth [CreateToken ''alice'' ''t1'' 0 1]"
  have v: "snd (verify_token 9 ?st ''t1'') = Some ''alice''"
    by (simp add: history_login verify_token_def dict_has_def seven_days_def)
  have e: "''t1'' \<noteq> [] \<and> map_of (active_tokens ?st) ''t1'' =
            Some \<lparr>account = ''alice'', created_at = 1, expires_at = seven_days\<rparr> \<and>
          expires_at \<lparr>account = ''alice'', created_at = 1, expires_at = seven_days\<rparr>
            < seven_days + 1"
    by (simp add: history_login)
  from verify_token_resolves [of 9 "[CreateToken ''alice'' ''t1'' 0 1]" "''t1''"] v
  have a: "(''alice'', ''t1'') \<in> set (created [CreateToken ''alice'' ''t1'' 0 1]) \<and>
           fst (verify_token 9 ?st ''t1'') = ?st" by blast
  from verify_token_resolves [of "seven_days + 1" "[CreateToken ''alice'' ''t1'' 0 1]" "''t1''"] e
  have b: "snd (verify_token (seven_days + 1) ?st ''t1'') = None \<and>
           map_of (active_tokens (fst (verify_token (seven_days + 1) ?st ''t1''))) ''t1'' = None"
    by blast
  from v a b show ?thesis by blast
qed

text \<open>
  Claim C7 as stated fails for a token that was revoked: it is not empty, it was created,
  and its expiry time has not passed, yet \<open>verify_token\<close> returns \<open>None\<close>.
\<close>

theorem revoked_token_is_unauthorized:
  "snd (verify_token 9 (run_auth [CreateToken ''alice'' ''t1'' 0 1, RevokeToken ''t1'']) ''t1'')
     = None \<and>
   ''t1'' \<noteq> [] \<and>
   (''alice'', ''t1'') \<in> set (created [CreateToken ''alice'' ''t1'' 0 1, RevokeToken ''t1'']) \<and>
   map_of (active_tokens (run_auth [CreateToken ''alice'' ''t1'' 0 1])) ''t1'' =
     Some \<lparr>account = ''alice'', created_at = 1, expires_at = seven_days\<rparr> \<and>
   \<not> 9 > seven_days"
  by (simp add: history_login history_logout verify_token_def dict_has_def no_tokens_def
        seven_days_def)


section \<open>The user file at start-up\<close>

lemma clear_rooms_map:
  "list_all (\<lambda>(a, u). is_dict u) users \<Longrightarrow>
   clear_rooms users = Inr (map (\<lambda>(a, u). (a, set_room_none u)) users)"
proof (induction users rule: clear_rooms.induct)
  case 1
  then show ?case by simp
next
  case (2 k user rest)
  then show ?case by (simp add: set_room_none_def is_dict_def)
qed (simp_all add: is_dict_def)

lemma field_of_set_room_none:
  "is_dict u \<Longrightarrow>
   is_dict (set_room_none u) \<and>
   field_of (set_room_none u) ''room'' = Some PNone \<and>
   (\<forall>k. k \<noteq> ''room'' \<longrightarrow> field_of (set_room_none u) k = field_of u k)"
  by (cases u) (simp_all add: is_dict_def set_room_none_def field_of_def update_conv')

text \<open>
  Claim C10. For a user file that holds users, \<open>init_users\<close> raises nothing and
  writes the same users back, in the same order, each with \<open>room\<close> set to
  \<open>None\<close> whatever it was before and with every other field as it was.
\<close>

theorem init_users_clears_rooms:
  assumes "list_all (\<lambda>(a, u). is_dict u) users"
  shows "\<exists>users'. init_users (Parsed (PDict users)) = (Parsed (PDict users'), None) \<and>
           dict_keys users' = dict_keys users \<and>
           list_all (\<lambda>(a, u). is_dict u \<and> field_of u ''room'' = Some PNone) users' \<and>
           (\<forall>i < length users. \<forall>k. k \<noteq> ''room'' \<longrightarrow>
              field_of (snd (users' ! i)) k = field_of (snd (users ! i)) k)"
proof -
  let ?users' = "map (\<lambda>(a, u). (a, set_room_none u)) users"
  have run: "init_users (Parsed (PDict users)) = (Parsed (PDict ?users'), None)"
    by (simp add: init_users_def clear_rooms_map[OF assms])
  have keys: "dict_keys ?users' = dict_keys users"
    by (simp add: dict_keys_def case_prod_unfold comp_def)
  have rooms: "list_all (\<lambda>(a, u). is_dict u \<and> field_of u ''room'' = Some PNone) ?users'"
    using assms field_of_set_room_none by (auto simp: list_all_iff)
  have rest: "\<forall>i < length users. \<forall>k. k \<noteq> ''room'' \<longrightarrow>
              field_of (snd (?users' ! i)) k = field_of (snd (users ! i)) k"
  proof (intro allI impI)
    fix i k assume i: "i < length users" and k: "k \<noteq> ''room''"
    from assms i have "is_dict (snd (users ! i))"
      by (auto simp: list_all_length case_prod_unfold)
    with k i show "field_of (snd (?users' ! i)) k = field_of (snd (users ! i)) k"
      using field_of_set_room_none by (simp add: case_prod_unfold)
  qed
  from run keys rooms rest show ?thesis by blast
qed

theorem init_users_clears_rooms_witness:
  "list_all (\<lambda>(a, u). is_dict u)
     [(''alice'', PDict [(''account'', PStr ''alice''), (''room'', PStr ''room1'')]),
      (''bob'', PDict [(''account'', PStr ''bob'')])] \<and>
   init_users (Parsed (PDict
     [(''alice'', PDict [(''account'', PStr ''alice''), (''room'', PStr ''room1'')]),
      (''bob'', PDict [(''account'', PStr ''bob'')])])) =
   (Parsed (PDict
     [(''alice'', PDict [(''account'', PStr ''alice''), (''room'', PNone)]),
      (''bob'', PDict [(''account'', PStr ''bob''), (''room'', PNone)])]), None)"
proof -
  let ?users = "[(''alice'', PDict [(''account'', PStr ''alice''), (''room'', PStr ''room1'')]),
      (''bob'', PDict [(''account'', PStr ''bob'')])]"
  have h: "list_all (\<lambda>(a, u). is_dict u) ?users" by (simp add: is_dict_def)
  from init_users_clears_rooms [OF h] h show ?thesis
    by (simp add: init_users_def)
qed

section \<open>Game discovery\<close>

lemma build_dict_present:
  "list_all (dict_has game) ks \<Longrightarrow>
   build_dict game ks = Inr (map (\<lambda>k. (k, the (map_of game k))) ks)"
  by (induction ks) (auto simp: getitem_def dict_has_def)

lemma game_list_loop_present:
  "list_all (\<lambda>game. list_all (dict_has game) public_fields) games \<Longrightarrow>
   game_list_loop games game_list = Inr (game_list @ map public_entry games)"
  by (induction games arbitrary: game_list) (simp_all add: build_dict_present public_entry_def)

text \<open>
  Claim C8. For a registry whose entries have the five public fields, the discovery
  response lists one dictionary per registered game, in registry order, whose keys are
  exactly \<open>id\<close>, \<open>name\<close>, \<open>description\<close>, \<open>min_players\<close> and
  \<open>max_players\<close>, with the values of the entry; \<open>class\<close> is not among them.
\<close>

theorem available_games_public_metadata:
  assumes "list_all (\<lambda>game. list_all (dict_has game) public_fields) reg"
  shows "\<exists>game_list. available_games reg = Inr (PDict [(''games'', PList game_list)]) \<and>
           length game_list = length reg \<and>
           (\<forall>i < length reg. \<exists>d. game_list ! i = PDict d \<and>
              dict_keys d = [''id'', ''name'', ''description'', ''min_players'', ''max_players''] \<and>
              (\<forall>k \<in> set (dict_keys d). map_of d k = map_of (reg ! i) k) \<and>
              \<not> dict_has d ''class'')"
proof -
  let ?gl = "map public_entry reg"
  have run: "available_games reg = Inr (PDict [(''games'', PList ?gl)])"
    by (simp add: available_games_def get_available_games_def game_list_loop_present[OF assms])
  have each: "\<exists>d. ?gl ! i = PDict d \<and>
              dict_keys d = [''id'', ''name'', ''description'', ''min_players'', ''max_players''] \<and>
              (\<forall>k \<in> set (dict_keys d). map_of d k = map_of (reg ! i) k) \<and>
              \<not> dict_has d ''class''" if i: "i < length reg" for i
  proof -
    let ?d = "map (\<lambda>k. (k, the (map_of (reg ! i) k))) public_fields"
    from assms i have has: "list_all (dict_has (reg ! i)) public_fields"
      by (simp add: list_all_length)
    have entry: "?gl ! i = PDict ?d" using i by (simp add: public_entry_def)
    have keys: "dict_keys ?d = [''id'', ''name'', ''description'', ''min_players'', ''max_players'']"
      by (simp add: dict_keys_def public_fields_def)
    have "set (dict_keys ?d) = set public_fields" by (simp add: dict_keys_def comp_def)
    then have vals: "\<forall>k \<in> set (dict_keys ?d). map_of ?d k = map_of (reg ! i) k"
      using has by (auto simp: map_of_tabulate list_all_iff dict_has_def)
    have nocls: "\<not> dict_has ?d ''class''"
      unfolding dict_has_def map_of_tabulate by (simp add: public_fields_def)
    from entry keys vals nocls show ?thesis by blast
  qed
  from run each show ?thesis by auto
qed


theorem available_games_public_metadata_witness:
  "list_all (\<lambda>game. list_all (dict_has game) public_fields) [register_game] \<and>
   available_games [register_game] =
     Inr (PDict [(''games'', PList [PDict
       [(''id'', PStr ''roulette''),
        (''name'', PStr ''Roulette''),
        (''description'', PStr (utf8 [228, 184, 128, 228, 184, 170, 231, 174, 128, 229, 141,
            149, 231, 154, 132, 230, 181, 139, 232, 175, 149, 230, 184, 184, 230, 136, 143])),
        (''min_players'', PInt 1),
        (''max_players'', PInt 4)]])])"
proof -
  have h: "list_all (\<lambda>game. list_all (dict_has game) public_fields) [register_game]"
    by (simp add: public_fields_def register_game_def dict_has_def)
  from available_games_public_metadata [OF h] h show ?thesis
    by (simp add: available_games_def get_available_games_def getitem_def public_fields_def
          register_game_def)
qed

end
